theory Spec2Isabelle
  imports Main
begin

section \<open>Data model of channel.c\<close>

text \<open>
  Values handed through a channel are untyped C pointers (\<open>void*\<close>). A pointer is the
  null pointer, the address of some object of the caller (\<open>Obj n\<close>), or the address
  \<open>&channel_list[i].data\<close> of the payload field of entry \<open>i\<close> of the descriptor
  array that starts at address \<open>a\<close> (\<open>DataField a i\<close>). The address of a field of
  an array entry is never null.
\<close>

datatype ptr = NULL | Obj nat | DataField nat nat

text \<open>
  Modelled from the spec: \<open>enum chan_status\<close> is declared in channel.h, which is not
  among the sources; channel.c uses these five constants and the spec lists them as
  distinct result codes.
\<close>

datatype chan_status = SUCCESS | WOULDBLOCK | CLOSED_ERROR | OTHER_ERROR | DESTROY_ERROR

text \<open>
  Modelled from the spec: the buffer (buffer.h, buffer.c) is an external collaborator that
  is not among the sources. The spec describes it as a fixed-capacity FIFO container of
  opaque values with the operations capacity, current size, try-insert (a boolean result)
  and try-remove (a value, or empty). Insertion is at the back, removal at the front; a
  removal from the empty buffer yields the null pointer.
\<close>

record buffer_t =
  capacity :: nat
  items :: "ptr list"

text \<open>Modelled from the spec: \<open>buffer_create\<close>, a buffer of the given capacity with no element.\<close>

definition buffer_create :: "nat \<Rightarrow> buffer_t" where
  "buffer_create n = \<lparr>capacity = n, items = []\<rparr>"

text \<open>Modelled from the spec: \<open>buffer_capacity\<close>, the fixed capacity.\<close>

definition buffer_capacity :: "buffer_t \<Rightarrow> nat" where
  "buffer_capacity b = capacity b"

text \<open>Modelled from the spec: \<open>buffer_current_size\<close>, the current occupancy.\<close>

definition buffer_current_size :: "buffer_t \<Rightarrow> nat" where
  "buffer_current_size b = length (items b)"

text \<open>
  Modelled from the spec: \<open>buffer_add\<close>, insert-if-not-full. The C function updates the
  buffer in place and returns whether it inserted; the model returns both.
\<close>

definition buffer_add :: "ptr \<Rightarrow> buffer_t \<Rightarrow> bool \<times> buffer_t" where
  "buffer_add d b =
     (if length (items b) < capacity b then (True, b\<lparr>items := items b @ [d]\<rparr>)
      else (False, b))"

text \<open>
  Modelled from the spec: \<open>buffer_remove\<close>, remove-if-not-empty: the oldest element,
  or the null pointer when there is none.
\<close>

definition buffer_remove :: "buffer_t \<Rightarrow> ptr \<times> buffer_t" where
  "buffer_remove b =
     (case items b of [] \<Rightarrow> (NULL, b) | x # xs \<Rightarrow> (x, b\<lparr>items := xs\<rparr>))"

text \<open>
  \<open>chan_t\<close> (declared in channel.h) with the fields channel.c reads and writes:
  \<open>buffer\<close>, \<open>semaphore\<close> (a \<open>sem_t*\<close>, \<open>None\<close> for the null pointer), \<open>open\<close>
  (here \<open>is_open\<close>) and \<open>mutex\<close> (\<open>True\<close> while some thread holds it). The two
  condition variables \<open>recv\<close> and \<open>send\<close> carry no data: a signal or broadcast only
  wakes threads parked in \<open>pthread_cond_wait\<close>, and what a parked thread sees when it
  wakes is given by the schedule below.
\<close>

record chan_t =
  buffer :: buffer_t
  semaphore :: "nat option"
  is_open :: bool
  mutex :: bool

text \<open>
  The shared memory: the channel objects by address (\<open>None\<close>: no live channel at that
  address) and the counters of the semaphores by address.
\<close>

record world =
  chans :: "nat \<rightharpoonup> chan_t"
  sems :: "nat \<Rightarrow> nat"

text \<open>
  A call returns a value, or never returns (the thread stays parked on a mutex, a
  condition or a semaphore), or faults (it dereferences a pointer that is null or dangling,
  or overflows a signed counter).
\<close>

datatype 'a outcome = Returns 'a | Blocked | Fault

text \<open>
  All accesses of one call to a channel happen between \<open>pthread_mutex_lock\<close> and
  \<open>pthread_mutex_unlock\<close> or \<open>pthread_cond_wait\<close>, so the critical sections of
  different threads do not overlap. The other threads are therefore modelled as a
  schedule: one state transformer for each time the calling thread parks, which is what
  the rest of the program does to the shared memory until the thread runs again. A thread
  that parks when the schedule is used up is never woken. The empty schedule is the
  program with a single thread. Between an unlock and the next lock inside one call (the
  loops of \<open>channel_select\<close>) no other thread is scheduled: the executions covered are
  those in which the other threads run while the caller is parked.
\<close>

type_synonym interference = "world \<Rightarrow> world"

section \<open>Primitives\<close>

text \<open>
  The mutexes are initialised with default attributes. Locking a mutex that is held does
  not return here: in this model a mutex that is found locked is held by a call that has
  ended or by the calling thread itself, and nobody will unlock it. Locking yields the
  channel object for the critical section.
\<close>

definition pthread_mutex_lock :: "nat \<Rightarrow> world \<Rightarrow> (chan_t \<times> world) outcome" where
  "pthread_mutex_lock c w =
     (case chans w c of
        None \<Rightarrow> Fault
      | Some ch \<Rightarrow>
          if mutex ch then Blocked
          else Returns (ch\<lparr>mutex := True\<rparr>, w\<lparr>chans := (chans w)(c \<mapsto> ch\<lparr>mutex := True\<rparr>)\<rparr>))"

text \<open>Unlocking publishes the fields as the critical section left them.\<close>

definition pthread_mutex_unlock :: "nat \<Rightarrow> chan_t \<Rightarrow> world \<Rightarrow> world" where
  "pthread_mutex_unlock c ch w = w\<lparr>chans := (chans w)(c \<mapsto> ch\<lparr>mutex := False\<rparr>)\<rparr>"

text \<open>
  \<open>pthread_cond_wait\<close> releases the mutex, parks until the thread is woken, and takes
  the mutex again; \<open>f\<close> is what the other threads did meanwhile.
\<close>

definition pthread_cond_wait :: "interference \<Rightarrow> nat \<Rightarrow> chan_t \<Rightarrow> world \<Rightarrow> (chan_t \<times> world) outcome" where
  "pthread_cond_wait f c ch w = pthread_mutex_lock c (f (pthread_mutex_unlock c ch w))"

definition sem_post :: "nat \<Rightarrow> world \<Rightarrow> world" where
  "sem_post s w = w\<lparr>sems := (sems w)(s := Suc (sems w s))\<rparr>"

text \<open>\<open>if(channel->semaphore){ sem_post(channel->semaphore); }\<close>\<close>

definition post_if_registered :: "chan_t \<Rightarrow> world \<Rightarrow> world" where
  "post_if_registered ch w = (case semaphore ch of None \<Rightarrow> w | Some s \<Rightarrow> sem_post s w)"

section \<open>channel_create\<close>

text \<open>\<open>p\<close> is the address that \<open>malloc\<close> returns for the channel object.\<close>

definition channel_create :: "nat \<Rightarrow> nat \<Rightarrow> world \<Rightarrow> nat option \<times> world" where
  "channel_create sz p w =
     (if sz = 0 then (None, w)
      else (Some p,
            w\<lparr>chans := (chans w)(p \<mapsto>
                 \<lparr>buffer = buffer_create sz, semaphore = None, is_open = True, mutex = False\<rparr>)\<rparr>))"

section \<open>channel_send\<close>

text \<open>
  The loop of the blocking case (lines 41 to 47). \<open>Inl st\<close>: the function returned
  \<open>st\<close> from inside the loop; \<open>Inr ch\<close>: the loop ended with the mutex held.
\<close>

fun send_wait :: "nat \<Rightarrow> interference list \<Rightarrow> chan_t \<Rightarrow> world \<Rightarrow> ((chan_status + chan_t) \<times> world) outcome" where
  "send_wait c sched ch w =
     (if buffer_capacity (buffer ch) = buffer_current_size (buffer ch) then
        if \<not> is_open ch then Returns (Inl CLOSED_ERROR, pthread_mutex_unlock c ch w)
        else (case sched of
                [] \<Rightarrow> Blocked
              | f # fs \<Rightarrow>
                  (case pthread_cond_wait f c ch w of
                     Returns (ch', w') \<Rightarrow> send_wait c fs ch' w'
                   | Blocked \<Rightarrow> Blocked
                   | Fault \<Rightarrow> Fault))
      else Returns (Inr ch, w))"

declare send_wait.simps [simp del]

text \<open>
  Lines 49 to 58 of the blocking case, which lines 67 to 76 of the non-blocking case
  repeat word for word, followed by lines 78 to 80.
\<close>

definition send_insert :: "nat \<Rightarrow> ptr \<Rightarrow> chan_t \<Rightarrow> world \<Rightarrow> (chan_status \<times> world) outcome" where
  "send_insert c data ch w =
     (if is_open ch then
        (case buffer_add data (buffer ch) of
           (False, b) \<Rightarrow> Returns (OTHER_ERROR, pthread_mutex_unlock c (ch\<lparr>buffer := b\<rparr>) w)
         | (True, b) \<Rightarrow>
             Returns (SUCCESS,
               pthread_mutex_unlock c (ch\<lparr>buffer := b\<rparr>) (post_if_registered ch w)))
      else Returns (SUCCESS, pthread_mutex_unlock c ch (post_if_registered ch w)))"

definition channel_send :: "nat \<Rightarrow> ptr \<Rightarrow> bool \<Rightarrow> interference list \<Rightarrow> world \<Rightarrow> (chan_status \<times> world) outcome" where
  "channel_send channel data blocking sched w =
     (case pthread_mutex_lock channel w of
        Blocked \<Rightarrow> Blocked
      | Fault \<Rightarrow> Fault
      | Returns (ch, w1) \<Rightarrow>
          if \<not> is_open ch then Returns (CLOSED_ERROR, pthread_mutex_unlock channel ch w1)
          else if blocking then
            (case send_wait channel sched ch w1 of
               Blocked \<Rightarrow> Blocked
             | Fault \<Rightarrow> Fault
             | Returns (Inl st, w2) \<Rightarrow> Returns (st, w2)
             | Returns (Inr ch2, w2) \<Rightarrow> send_insert channel data ch2 w2)
          else if buffer_capacity (buffer ch) = buffer_current_size (buffer ch) then
            Returns (WOULDBLOCK, pthread_mutex_unlock channel ch w1)
          else send_insert channel data ch w1)"

section \<open>channel_receive\<close>

text \<open>The loop of the blocking case (lines 101 to 107).\<close>

fun receive_wait :: "nat \<Rightarrow> interference list \<Rightarrow> chan_t \<Rightarrow> world \<Rightarrow> ((chan_status + chan_t) \<times> world) outcome" where
  "receive_wait c sched ch w =
     (if buffer_current_size (buffer ch) = 0 then
        if \<not> is_open ch then Returns (Inl CLOSED_ERROR, pthread_mutex_unlock c ch w)
        else (case sched of
                [] \<Rightarrow> Blocked
              | f # fs \<Rightarrow>
                  (case pthread_cond_wait f c ch w of
                     Returns (ch', w') \<Rightarrow> receive_wait c fs ch' w'
                   | Blocked \<Rightarrow> Blocked
                   | Fault \<Rightarrow> Fault))
      else Returns (Inr ch, w))"

declare receive_wait.simps [simp del]

text \<open>
  The store \<open>*data = v\<close> through the output pointer: what is written to the slot, if the
  pointer can be written through.
\<close>

definition store_through :: "ptr \<Rightarrow> ptr \<Rightarrow> ptr option" where
  "store_through data v = (if data = NULL then None else Some v)"

text \<open>
  Lines 108 to 117 of the blocking case, which lines 126 to 135 repeat, followed by lines
  138 to 140. \<open>rm\<close> is the buffer's removal function. The result carries what was stored
  in the output slot (\<open>None\<close>: nothing was stored). The test after the removal reads
  \<open>if(!data)\<close>: it looks at the output pointer, not at the value removed.
\<close>

definition receive_remove :: "(buffer_t \<Rightarrow> ptr \<times> buffer_t) \<Rightarrow> nat \<Rightarrow> ptr \<Rightarrow> chan_t \<Rightarrow> world \<Rightarrow> (chan_status \<times> ptr option \<times> world) outcome" where
  "receive_remove rm c data ch w =
     (if is_open ch then
        (case rm (buffer ch) of
           (v, b) \<Rightarrow>
             (case store_through data v of
                None \<Rightarrow> Fault
              | Some stored \<Rightarrow>
                  if data = NULL then
                    Returns (OTHER_ERROR, Some stored, pthread_mutex_unlock c (ch\<lparr>buffer := b\<rparr>) w)
                  else
                    Returns (SUCCESS, Some stored,
                      pthread_mutex_unlock c (ch\<lparr>buffer := b\<rparr>) (post_if_registered ch w))))
      else Returns (SUCCESS, None, pthread_mutex_unlock c ch (post_if_registered ch w)))"

definition channel_receive_with :: "(buffer_t \<Rightarrow> ptr \<times> buffer_t) \<Rightarrow> nat \<Rightarrow> ptr \<Rightarrow> bool \<Rightarrow> interference list \<Rightarrow> world \<Rightarrow> (chan_status \<times> ptr option \<times> world) outcome" where
  "channel_receive_with rm channel data blocking sched w =
     (case pthread_mutex_lock channel w of
        Blocked \<Rightarrow> Blocked
      | Fault \<Rightarrow> Fault
      | Returns (ch, w1) \<Rightarrow>
          if \<not> is_open ch then Returns (CLOSED_ERROR, None, pthread_mutex_unlock channel ch w1)
          else if blocking then
            (case receive_wait channel sched ch w1 of
               Blocked \<Rightarrow> Blocked
             | Fault \<Rightarrow> Fault
             | Returns (Inl st, w2) \<Rightarrow> Returns (st, None, w2)
             | Returns (Inr ch2, w2) \<Rightarrow> receive_remove rm channel data ch2 w2)
          else if buffer_current_size (buffer ch) = 0 then
            Returns (WOULDBLOCK, None, pthread_mutex_unlock channel ch w1)
          else receive_remove rm channel data ch w1)"

text \<open>\<open>channel_receive\<close> as channel.c links it, with the buffer's own \<open>buffer_remove\<close>.\<close>

definition channel_receive :: "nat \<Rightarrow> ptr \<Rightarrow> bool \<Rightarrow> interference list \<Rightarrow> world \<Rightarrow> (chan_status \<times> ptr option \<times> world) outcome" where
  "channel_receive = channel_receive_with buffer_remove"

section \<open>channel_close and channel_destroy\<close>

definition channel_close :: "nat \<Rightarrow> world \<Rightarrow> (chan_status \<times> world) outcome" where
  "channel_close channel w =
     (case pthread_mutex_lock channel w of
        Blocked \<Rightarrow> Blocked
      | Fault \<Rightarrow> Fault
      | Returns (ch, w1) \<Rightarrow>
          if \<not> is_open ch then Returns (CLOSED_ERROR, pthread_mutex_unlock channel ch w1)
          else Returns (SUCCESS,
                 pthread_mutex_unlock channel (ch\<lparr>is_open := False\<rparr>) (post_if_registered ch w1)))"

text \<open>\<open>channel_destroy\<close> takes no lock; \<open>free(channel)\<close> ends the life of the object.\<close>

definition channel_destroy :: "nat \<Rightarrow> world \<Rightarrow> (chan_status \<times> world) outcome" where
  "channel_destroy channel w =
     (case chans w channel of
        None \<Rightarrow> Fault
      | Some ch \<Rightarrow>
          if is_open ch then Returns (DESTROY_ERROR, w)
          else Returns (SUCCESS, w\<lparr>chans := (chans w)(channel := None)\<rparr>))"

section \<open>channel_select\<close>

text \<open>
  \<open>select_t\<close> (declared in channel.h) with the fields channel.c uses. The array
  \<open>channel_list\<close> of \<open>channel_count\<close> entries is a list of that length.
\<close>

record select_t =
  channel :: nat
  is_send :: bool
  data :: ptr

text \<open>The first loop (lines 208 to 212): every listed channel gets the semaphore \<open>s\<close>.\<close>

fun register_semaphore :: "nat \<Rightarrow> select_t list \<Rightarrow> world \<Rightarrow> world outcome" where
  "register_semaphore s [] w = Returns w"
| "register_semaphore s (e # es) w =
     (case pthread_mutex_lock (channel e) w of
        Blocked \<Rightarrow> Blocked
      | Fault \<Rightarrow> Fault
      | Returns (ch, w1) \<Rightarrow>
          register_semaphore s es (pthread_mutex_unlock (channel e) (ch\<lparr>semaphore := Some s\<rparr>) w1))"

text \<open>
  The scan (lines 215 to 232) from index \<open>i\<close> over the remaining entries; \<open>a\<close> is the
  address of the array. \<open>Inl\<close>: the function returned, with the status, the index written
  to \<open>*selected_index\<close> and entry \<open>i\<close> as the call left it; \<open>Inr\<close>: the loop ran to
  its end. A ready entry is unlocked before its operation is called. An entry that is not
  ready is left as it is: no branch unlocks its mutex. The argument of both calls is
  \<open>&channel_list[i].data\<close>.
\<close>

fun scan :: "nat \<Rightarrow> interference list \<Rightarrow> nat \<Rightarrow> select_t list \<Rightarrow> world \<Rightarrow> ((chan_status \<times> nat \<times> select_t \<times> world) + world) outcome" where
  "scan a sched i [] w = Returns (Inr w)"
| "scan a sched i (e # es) w =
     (case pthread_mutex_lock (channel e) w of
        Blocked \<Rightarrow> Blocked
      | Fault \<Rightarrow> Fault
      | Returns (ch, w1) \<Rightarrow>
          if is_send e then
            if buffer_capacity (buffer ch) > buffer_current_size (buffer ch) then
              (case channel_send (channel e) (DataField a i) True sched
                      (pthread_mutex_unlock (channel e) ch w1) of
                 Blocked \<Rightarrow> Blocked
               | Fault \<Rightarrow> Fault
               | Returns (st, w2) \<Rightarrow> Returns (Inl (st, i, e, w2)))
            else scan a sched (Suc i) es w1
          else
            if buffer_current_size (buffer ch) \<noteq> 0 then
              (case channel_receive (channel e) (DataField a i) True sched
                      (pthread_mutex_unlock (channel e) ch w1) of
                 Blocked \<Rightarrow> Blocked
               | Fault \<Rightarrow> Fault
               | Returns (st, stored, w2) \<Rightarrow>
                   Returns (Inl (st, i, (case stored of None \<Rightarrow> e | Some v \<Rightarrow> e\<lparr>data := v\<rparr>), w2)))
            else scan a sched (Suc i) es w1)"

text \<open>
  \<open>sem_wait\<close> takes one unit of the counter, parking while the counter is zero. It
  yields what is left of the schedule.
\<close>

fun sem_wait :: "nat \<Rightarrow> interference list \<Rightarrow> world \<Rightarrow> (interference list \<times> world) outcome" where
  "sem_wait s sched w =
     (if 0 < sems w s then Returns (sched, w\<lparr>sems := (sems w)(s := sems w s - 1)\<rparr>)
      else (case sched of [] \<Rightarrow> Blocked | f # fs \<Rightarrow> sem_wait s fs (f w)))"

declare sem_wait.simps [simp del]

text \<open>The loop \<open>while(true)\<close> (lines 214 to 234): scan, then \<open>sem_wait\<close>, again.\<close>

function select_loop :: "nat \<Rightarrow> nat \<Rightarrow> select_t list \<Rightarrow> interference list \<Rightarrow> world \<Rightarrow> (chan_status \<times> nat \<times> select_t \<times> world) outcome" where
  "select_loop a s channel_list sched w =
     (case scan a sched 0 channel_list w of
        Blocked \<Rightarrow> Blocked
      | Fault \<Rightarrow> Fault
      | Returns (Inl r) \<Rightarrow> Returns r
      | Returns (Inr w1) \<Rightarrow>
          (case sem_wait s sched w1 of
             Blocked \<Rightarrow> Blocked
           | Fault \<Rightarrow> Fault
           | Returns (sched', w2) \<Rightarrow> select_loop a s channel_list sched' w2))"
  by pat_completeness auto
termination
proof (relation "measures [\<lambda>(a, s, l, sched, w). length sched, \<lambda>(a, s, l, sched, w). sems w s]")
  show "wf (measures [\<lambda>(a, s, l, sched, w). length sched, \<lambda>(a, s, l, sched, w). sems w s])"
    by simp
next
  fix a s :: nat and channel_list :: "select_t list" and sched :: "interference list"
    and w x1 w1 x2 sched' w2
  assume sc: "scan a sched 0 channel_list w = Returns x1" "x1 = Inr w1"
    and sw: "sem_wait s sched w1 = Returns x2" "(sched', w2) = x2"
  have lock_sems: "sems v1 = sems v" if "pthread_mutex_lock c v = Returns (ch, v1)"
    for c v ch v1
    using that by (auto simp: pthread_mutex_lock_def split: option.splits if_splits)
  have scan_sems: "sems v1 = sems v" if "scan a sched i es v = Returns (Inr v1)"
    for i es v v1
    using that
    by (induction es arbitrary: i v)
       (auto split: outcome.splits if_splits prod.splits dest: lock_sems)
  have progress: "length fs' < length fs \<or> (length fs' = length fs \<and> sems v' s < sems v s)"
    if "sem_wait s fs v = Returns (fs', v')" for fs v fs' v'
    using that
  proof (induction fs arbitrary: v)
    case Nil
    then show ?case by (auto simp: sem_wait.simps split: if_splits)
  next
    case (Cons f fs)
    show ?case
    proof (cases "0 < sems v s")
      case True
      with Cons.prems show ?thesis by (auto simp: sem_wait.simps)
    next
      case False
      with Cons.prems have "sem_wait s fs (f v) = Returns (fs', v')"
        by (simp add: sem_wait.simps)
      from Cons.IH [OF this] show ?thesis by auto
    qed
  qed
  from sc have "sems w1 = sems w" by (auto dest: scan_sems)
  moreover from sw have "sem_wait s sched w1 = Returns (sched', w2)" by simp
  ultimately show "((a, s, channel_list, sched', w2), a, s, channel_list, sched, w)
          \<in> measures [\<lambda>(a, s, l, sched, w). length sched, \<lambda>(a, s, l, sched, w). sems w s]"
    using progress [of sched w1 sched' w2] by auto
qed

declare select_loop.simps [simp del]

text \<open>
  \<open>channel_select\<close>: \<open>s\<close> is the address that \<open>malloc\<close> returns for the semaphore,
  which \<open>sem_init\<close> sets to zero. The loop counters are \<open>int\<close>: with \<open>2^31\<close> entries
  or more the first loop overflows its counter. The result carries the status, the value
  written to \<open>*selected_index\<close>, the descriptor array as the call left it, and the shared
  memory.
\<close>

definition channel_select :: "nat \<Rightarrow> select_t list \<Rightarrow> nat \<Rightarrow> interference list \<Rightarrow> world \<Rightarrow> (chan_status \<times> nat \<times> select_t list \<times> world) outcome" where
  "channel_select a channel_list s sched w =
     (if 2 ^ 31 \<le> length channel_list then Fault
      else
        (case register_semaphore s channel_list (w\<lparr>sems := (sems w)(s := 0)\<rparr>) of
           Blocked \<Rightarrow> Blocked
         | Fault \<Rightarrow> Fault
         | Returns w1 \<Rightarrow>
             (case select_loop a s channel_list sched w1 of
                Blocked \<Rightarrow> Blocked
              | Fault \<Rightarrow> Fault
              | Returns (st, i, e, w2) \<Rightarrow> Returns (st, i, channel_list[i := e], w2))))"

section \<open>Calls of a client\<close>

text \<open>
  One call of the interface, and the shared memory it leaves when it returns. This is how
  a statement about every operation is written once.
\<close>

datatype api_call =
    Send nat ptr bool
  | Receive nat ptr bool
  | Close nat
  | Destroy nat
  | Select nat "select_t list" nat

fun world_after :: "api_call \<Rightarrow> interference list \<Rightarrow> world \<Rightarrow> world outcome" where
  "world_after (Send c d b) sched w =
     (case channel_send c d b sched w of
        Blocked \<Rightarrow> Blocked | Fault \<Rightarrow> Fault | Returns (st, w') \<Rightarrow> Returns w')"
| "world_after (Receive c d b) sched w =
     (case channel_receive c d b sched w of
        Blocked \<Rightarrow> Blocked | Fault \<Rightarrow> Fault | Returns (st, v, w') \<Rightarrow> Returns w')"
| "world_after (Close c) sched w =
     (case channel_close c w of
        Blocked \<Rightarrow> Blocked | Fault \<Rightarrow> Fault | Returns (st, w') \<Rightarrow> Returns w')"
| "world_after (Destroy c) sched w =
     (case channel_destroy c w of
        Blocked \<Rightarrow> Blocked | Fault \<Rightarrow> Fault | Returns (st, w') \<Rightarrow> Returns w')"
| "world_after (Select a l s) sched w =
     (case channel_select a l s sched w of
        Blocked \<Rightarrow> Blocked | Fault \<Rightarrow> Fault | Returns (st, i, l', w') \<Rightarrow> Returns w')"

text \<open>
  What another thread does to the shared memory by a sequence of calls that it runs to
  the end while the calling thread is parked. (A call of the other thread that does not
  return is left out of the account.)
\<close>

fun other_thread :: "api_call list \<Rightarrow> interference" where
  "other_thread [] w = w"
| "other_thread (x # xs) w =
     (case world_after x [] w of
        Returns w' \<Rightarrow> other_thread xs w'
      | Blocked \<Rightarrow> other_thread xs w
      | Fault \<Rightarrow> other_thread xs w)"

text \<open>
  A single thread that sends the values of a list one after the other, each with its own
  blocking flag, and collects the statuses.
\<close>

fun send_all :: "nat \<Rightarrow> (ptr \<times> bool) list \<Rightarrow> world \<Rightarrow> (chan_status list \<times> world) outcome" where
  "send_all c [] w = Returns ([], w)"
| "send_all c ((v, b) # vs) w =
     (case channel_send c v b [] w of
        Blocked \<Rightarrow> Blocked
      | Fault \<Rightarrow> Fault
      | Returns (st, w1) \<Rightarrow>
          (case send_all c vs w1 of
             Blocked \<Rightarrow> Blocked
           | Fault \<Rightarrow> Fault
           | Returns (sts, w2) \<Rightarrow> Returns (st # sts, w2)))"

text \<open>
  A single thread that receives once for every entry of a list (an output pointer and a
  blocking flag), and collects each status with what was stored in the output slot.
\<close>

fun receive_all :: "nat \<Rightarrow> (ptr \<times> bool) list \<Rightarrow> world \<Rightarrow> ((chan_status \<times> ptr option) list \<times> world) outcome" where
  "receive_all c [] w = Returns ([], w)"
| "receive_all c ((d, b) # ds) w =
     (case channel_receive c d b [] w of
        Blocked \<Rightarrow> Blocked
      | Fault \<Rightarrow> Fault
      | Returns (st, v, w1) \<Rightarrow>
          (case receive_all c ds w1 of
             Blocked \<Rightarrow> Blocked
           | Fault \<Rightarrow> Fault
           | Returns (rs, w2) \<Rightarrow> Returns ((st, v) # rs, w2)))"

text \<open>There is a live channel at address \<open>k\<close> and its \<open>open\<close> flag is set.\<close>

definition open_at :: "world \<Rightarrow> nat \<Rightarrow> bool" where
  "open_at w k = (case chans w k of None \<Rightarrow> False | Some ch \<Rightarrow> is_open ch)"

text \<open>
  A channel object with the given capacity, buffered values and \<open>open\<close> flag, no
  semaphore registered and the mutex free.
\<close>

definition idle_chan :: "nat \<Rightarrow> ptr list \<Rightarrow> bool \<Rightarrow> chan_t" where
  "idle_chan n xs opn =
     \<lparr>buffer = \<lparr>capacity = n, items = xs\<rparr>, semaphore = None, is_open = opn, mutex = False\<rparr>"

text \<open>The shared memory with one such channel, at address 0; all semaphore counters zero.\<close>

definition one_channel :: "nat \<Rightarrow> ptr list \<Rightarrow> bool \<Rightarrow> world" where
  "one_channel n xs opn = \<lparr>chans = [0 \<mapsto> idle_chan n xs opn], sems = (\<lambda>_. 0)\<rparr>"

text \<open>The shared memory with two channels, at the addresses 0 and 1.\<close>

definition two_channels :: "chan_t \<Rightarrow> chan_t \<Rightarrow> world" where
  "two_channels c0 c1 = \<lparr>chans = [0 \<mapsto> c0, 1 \<mapsto> c1], sems = (\<lambda>_. 0)\<rparr>"

section \<open>Evaluation and the lock\<close>

lemmas eval_defs =
  channel_create_def channel_send_def channel_receive_def channel_receive_with_def
  channel_close_def channel_destroy_def channel_select_def
  pthread_mutex_lock_def pthread_mutex_unlock_def pthread_cond_wait_def
  sem_post_def post_if_registered_def
  send_wait.simps receive_wait.simps send_insert_def receive_remove_def store_through_def
  buffer_create_def buffer_capacity_def buffer_current_size_def buffer_add_def
  buffer_remove_def idle_chan_def one_channel_def two_channels_def
  select_loop.simps sem_wait.simps open_at_def

text \<open>Taking a free mutex and releasing it at once leaves the shared memory as it was.\<close>

lemma lock_free:
  assumes "chans w c = Some ch" and "\<not> mutex ch"
  shows "pthread_mutex_lock c w =
           Returns (ch\<lparr>mutex := True\<rparr>, w\<lparr>chans := (chans w)(c \<mapsto> ch\<lparr>mutex := True\<rparr>)\<rparr>)"
  using assms by (simp add: pthread_mutex_lock_def)

lemma relock_unchanged:
  assumes "chans w c = Some ch" and "\<not> mutex ch"
  shows "pthread_mutex_unlock c (ch\<lparr>mutex := True\<rparr>)
           (w\<lparr>chans := (chans w)(c \<mapsto> ch\<lparr>mutex := True\<rparr>)\<rparr>) = w"
proof -
  have "ch\<lparr>mutex := False\<rparr> = ch" using assms(2) by (cases ch) simp
  moreover have "(chans w)(c \<mapsto> ch) = chans w" using assms(1) by (rule map_upd_triv)
  ultimately show ?thesis by (simp add: pthread_mutex_unlock_def)
qed

section \<open>A blocked send that wakes on a closed channel\<close>

text \<open>
  C1. The claim: a blocking \<open>channel_send\<close> that waits because the buffer is full and
  whose channel is closed before the send completes returns \<open>CLOSED_ERROR\<close> and does
  not insert; \<open>SUCCESS\<close> is returned only when the value was inserted.

  The code at a concrete input: a channel of capacity 1 holds \<open>Obj 1\<close> and is open; a
  thread calls \<open>channel_send\<close> with \<open>Obj 2\<close>, blocking, and parks in
  \<open>pthread_cond_wait\<close>. Meanwhile another thread receives (the buffer is now empty) and
  closes the channel. The sender wakes: the loop test finds space and ends the loop
  without looking at \<open>open\<close>; line 49 finds the channel closed and skips
  \<open>buffer_add\<close>; control falls through to \<open>return SUCCESS\<close>. The call returns
  \<open>SUCCESS\<close>, the buffer is empty, and \<open>Obj 2\<close> is in no buffer.
\<close>

theorem blocked_send_success_without_insert:
  "channel_send 0 (Obj 2) True [other_thread [Receive 0 (Obj 9) False, Close 0]]
     (one_channel 1 [Obj 1] True)
   = Returns (SUCCESS, one_channel 1 [] False)"
  by (simp add: eval_defs)

text \<open>
  When the channel is closed while the buffer stays full, the woken sender does return
  \<open>CLOSED_ERROR\<close> and inserts nothing (lines 42 to 45).
\<close>

lemma blocked_send_closed_while_full:
  "channel_send 0 (Obj 2) True [other_thread [Close 0]] (one_channel 1 [Obj 1] True)
   = Returns (CLOSED_ERROR, one_channel 1 [Obj 1] False)"
  by (simp add: eval_defs)

section \<open>What select sends\<close>

text \<open>
  C2. The claim: when \<open>channel_select\<close> commits to a send descriptor at index \<open>i\<close>,
  the value inserted into the channel's buffer is the descriptor's payload
  \<open>channel_list[i].data\<close>.

  The code at a concrete input: one descriptor, a send of \<open>Obj 3\<close> on an empty open
  channel of capacity 1. Line 221 passes \<open>&channel_list[i].data\<close>, so what is
  inserted is the address of the payload field of entry 0 of the caller's array, not
  the payload \<open>Obj 3\<close>.
\<close>

theorem select_inserts_address_of_payload_field:
  "channel_select a [\<lparr>channel = 0, is_send = True, data = Obj 3\<rparr>] 5 sched
     (one_channel 1 [] True)
   = Returns (SUCCESS, 0, [\<lparr>channel = 0, is_send = True, data = Obj 3\<rparr>],
       \<lparr>chans = [0 \<mapsto> (idle_chan 1 [DataField a 0] True)\<lparr>semaphore := Some 5\<rparr>],
        sems = (\<lambda>_. 0)(5 := 1)\<rparr>)
   \<and> DataField a 0 \<noteq> data \<lparr>channel = 0, is_send = True, data = Obj 3\<rparr>"
  by (simp add: eval_defs)

section \<open>Receive after close\<close>

text \<open>
  C3. Every \<open>channel_receive\<close>, blocking or not, on a channel that has been closed
  returns \<open>CLOSED_ERROR\<close>, stores nothing in the output slot and leaves the shared
  memory, so also the buffer with its unread values, as it was: whatever the buffer holds
  and whatever the other threads would do. The call has to get the channel's mutex, as
  every call has: the mutex is not held for good by someone else.
\<close>

theorem receive_after_close:
  assumes "chans w c = Some ch" and "\<not> is_open ch" and "\<not> mutex ch"
  shows "channel_receive c d blocking sched w = Returns (CLOSED_ERROR, None, w)"
  using assms
  by (simp add: channel_receive_def channel_receive_with_def lock_free relock_unchanged)

theorem receive_after_close_witness:
  "chans (one_channel 2 [Obj 2, Obj 3] False) 0 = Some (idle_chan 2 [Obj 2, Obj 3] False)
   \<and> \<not> is_open (idle_chan 2 [Obj 2, Obj 3] False)
   \<and> \<not> mutex (idle_chan 2 [Obj 2, Obj 3] False)
   \<and> channel_receive 0 (Obj 9) True [] (one_channel 2 [Obj 2, Obj 3] False)
     = Returns (CLOSED_ERROR, None, one_channel 2 [Obj 2, Obj 3] False)"
proof -
  let ?ch = "idle_chan 2 [Obj 2, Obj 3] False"
  have h1: "chans (one_channel 2 [Obj 2, Obj 3] False) 0 = Some ?ch"
    by (simp add: one_channel_def)
  have h2: "\<not> is_open ?ch" and h3: "\<not> mutex ?ch" by (simp_all add: idle_chan_def)
  from h1 h2 h3 receive_after_close [OF h1 h2 h3, of "Obj 9" True "[]"] show ?thesis by simp
qed

section \<open>The literal scenario\<close>

text \<open>
  C4. A channel of capacity 2 is created; then, in one thread: send 1 (blocking) succeeds,
  send 2 (blocking) succeeds, send 3 (non-blocking) gives \<open>WOULDBLOCK\<close> and changes
  nothing, receive (blocking) succeeds and yields 1, send 3 (non-blocking) succeeds, close
  succeeds, receive (non-blocking) gives \<open>CLOSED_ERROR\<close>, and 2 and 3 are still in the
  buffer. Each line starts from the shared memory the line before ends with. None of the
  blocking calls parks, so the schedules \<open>s1\<close> to \<open>s6\<close> are arbitrary.
\<close>

theorem literal_scenario:
  "channel_create 2 0 \<lparr>chans = Map.empty, sems = (\<lambda>_. 0)\<rparr> = (Some 0, one_channel 2 [] True)
   \<and> channel_send 0 (Obj 1) True s1 (one_channel 2 [] True)
       = Returns (SUCCESS, one_channel 2 [Obj 1] True)
   \<and> channel_send 0 (Obj 2) True s2 (one_channel 2 [Obj 1] True)
       = Returns (SUCCESS, one_channel 2 [Obj 1, Obj 2] True)
   \<and> channel_send 0 (Obj 3) False s3 (one_channel 2 [Obj 1, Obj 2] True)
       = Returns (WOULDBLOCK, one_channel 2 [Obj 1, Obj 2] True)
   \<and> channel_receive 0 (Obj 9) True s4 (one_channel 2 [Obj 1, Obj 2] True)
       = Returns (SUCCESS, Some (Obj 1), one_channel 2 [Obj 2] True)
   \<and> channel_send 0 (Obj 3) False s5 (one_channel 2 [Obj 2] True)
       = Returns (SUCCESS, one_channel 2 [Obj 2, Obj 3] True)
   \<and> channel_close 0 (one_channel 2 [Obj 2, Obj 3] True)
       = Returns (SUCCESS, one_channel 2 [Obj 2, Obj 3] False)
   \<and> channel_receive 0 (Obj 9) False s6 (one_channel 2 [Obj 2, Obj 3] False)
       = Returns (CLOSED_ERROR, None, one_channel 2 [Obj 2, Obj 3] False)"
  by (simp add: eval_defs)

section \<open>FIFO delivery\<close>

lemma send_wait_alone:
  "send_wait c [] ch w = Returns (r, w') \<Longrightarrow> is_open ch \<Longrightarrow>
     r = Inr ch \<and> w' = w \<and> buffer_capacity (buffer ch) \<noteq> buffer_current_size (buffer ch)"
  by (subst (asm) send_wait.simps) (auto split: if_splits)

lemma send_success_appends:
  assumes "channel_send c v b [] w = Returns (SUCCESS, w1)" and "chans w c = Some ch"
  shows "\<exists>ch1. chans w1 c = Some ch1 \<and> items (buffer ch1) = items (buffer ch) @ [v]
           \<and> is_open ch1 \<and> \<not> mutex ch1"
proof -
  from assms have free: "\<not> mutex ch"
    by (auto simp: channel_send_def pthread_mutex_lock_def split: if_splits)
  let ?ch = "ch\<lparr>mutex := True\<rparr>"
  let ?w = "w\<lparr>chans := (chans w)(c \<mapsto> ?ch)\<rparr>"
  have lk: "pthread_mutex_lock c w = Returns (?ch, ?w)"
    using assms(2) free by (simp add: pthread_mutex_lock_def)
  from assms(1) lk have opn: "is_open ch"
    by (auto simp: channel_send_def split: if_splits)
  have ins: "send_insert c v ?ch ?w = Returns (SUCCESS, w1)"
  proof (cases b)
    case True
    with assms(1) lk opn obtain r w2 where
      sw: "send_wait c [] ?ch ?w = Returns (r, w2)" and
      fin: "(case r of Inl st \<Rightarrow> Returns (st, w2) | Inr ch2 \<Rightarrow> send_insert c v ch2 w2)
              = Returns (SUCCESS, w1)"
      by (auto simp: channel_send_def split: outcome.splits sum.splits)
    from send_wait_alone [OF sw] opn have "r = Inr ?ch" "w2 = ?w" by simp_all
    with fin show ?thesis by simp
  next
    case False
    with assms(1) lk opn show ?thesis
      by (auto simp: channel_send_def split: if_splits)
  qed
  then show ?thesis
    using opn
    by (auto simp: send_insert_def buffer_add_def pthread_mutex_unlock_def
        split: if_splits)
qed

lemma send_all_appends:
  assumes "send_all c vbs w = Returns (sts, w1)" and "\<forall>st\<in>set sts. st = SUCCESS"
    and "chans w c = Some ch"
  shows "\<exists>ch1. chans w1 c = Some ch1 \<and> items (buffer ch1) = items (buffer ch) @ map fst vbs
           \<and> (vbs \<noteq> [] \<longrightarrow> is_open ch1 \<and> \<not> mutex ch1)"
  using assms
proof (induction vbs arbitrary: w sts ch)
  case Nil
  then show ?case by simp
next
  case (Cons vb vbs)
  obtain v b where vb: "vb = (v, b)" by (cases vb)
  from Cons.prems(1) vb obtain st wm sts' where
    first: "channel_send c v b [] w = Returns (st, wm)" and
    rest: "send_all c vbs wm = Returns (sts', w1)" and
    sts: "sts = st # sts'"
    by (auto split: outcome.splits)
  from sts Cons.prems(2) have ok: "st = SUCCESS" "\<forall>st\<in>set sts'. st = SUCCESS" by simp_all
  from send_success_appends [OF first [unfolded ok(1)] Cons.prems(3)] obtain chm where
    chm: "chans wm c = Some chm" "items (buffer chm) = items (buffer ch) @ [v]"
      "is_open chm" "\<not> mutex chm" by blast
  from Cons.IH [OF rest ok(2) chm(1)] obtain ch1 where
    ch1: "chans w1 c = Some ch1" "items (buffer ch1) = items (buffer chm) @ map fst vbs"
      "vbs \<noteq> [] \<longrightarrow> is_open ch1 \<and> \<not> mutex ch1" by blast
  show ?case
  proof (cases vbs)
    case Nil
    with rest have "w1 = wm" by simp
    with chm vb Nil show ?thesis by simp
  next
    case (Cons x xs)
    with ch1 chm vb show ?thesis by simp
  qed
qed

lemma receive_takes_oldest:
  assumes "chans w c = Some ch" and "is_open ch" and "\<not> mutex ch"
    and "items (buffer ch) = x # xs" and "d \<noteq> NULL"
  shows "\<exists>w1 ch1. channel_receive c d b sched w = Returns (SUCCESS, Some x, w1)
           \<and> chans w1 c = Some ch1 \<and> items (buffer ch1) = xs \<and> is_open ch1 \<and> \<not> mutex ch1"
proof -
  let ?ch = "ch\<lparr>mutex := True\<rparr>"
  let ?w = "w\<lparr>chans := (chans w)(c \<mapsto> ?ch)\<rparr>"
  have lk: "pthread_mutex_lock c w = Returns (?ch, ?w)"
    using assms(1,3) by (simp add: pthread_mutex_lock_def)
  have rw: "receive_wait c sched ?ch ?w = Returns (Inr ?ch, ?w)"
    using assms(4) by (simp add: receive_wait.simps buffer_current_size_def)
  show ?thesis
    using assms lk rw
    by (simp add: channel_receive_def channel_receive_with_def receive_remove_def
        buffer_remove_def buffer_current_size_def store_through_def pthread_mutex_unlock_def)
qed

lemma receive_all_in_order:
  assumes "chans w c = Some ch" and "is_open ch" and "\<not> mutex ch"
    and "items (buffer ch) = xs @ ys" and "length ds = length xs"
    and "\<forall>(d, b)\<in>set ds. d \<noteq> NULL"
  shows "\<exists>w1. receive_all c ds w = Returns (map (\<lambda>x. (SUCCESS, Some x)) xs, w1)"
  using assms
proof (induction xs arbitrary: ds w ch)
  case Nil
  then show ?case by simp
next
  case (Cons x xs)
  from Cons.prems(5) obtain d b ds' where ds: "ds = (d, b) # ds'" "length ds' = length xs"
    by (cases ds) auto
  with Cons.prems(6) have nn: "d \<noteq> NULL" "\<forall>(d, b)\<in>set ds'. d \<noteq> NULL" by auto
  from Cons.prems(4) have "items (buffer ch) = x # (xs @ ys)" by simp
  from receive_takes_oldest [OF Cons.prems(1-3) this nn(1), of b "[]"] obtain wm chm where
    first: "channel_receive c d b [] w = Returns (SUCCESS, Some x, wm)" and
    chm: "chans wm c = Some chm" "items (buffer chm) = xs @ ys" "is_open chm" "\<not> mutex chm"
    by blast
  from Cons.IH [OF chm(1,3,4,2) ds(2) nn(2)] obtain w1 where
    "receive_all c ds' wm = Returns (map (\<lambda>x. (SUCCESS, Some x)) xs, w1)" by blast
  with first ds show ?case by simp
qed

text \<open>
  C5. A thread sends \<open>v1..vn\<close> into a channel whose buffer is empty, every send (each
  blocking or not) returns \<open>SUCCESS\<close>, and nothing is received in between. Then the next
  \<open>n\<close> receives (each blocking or not, each with an output slot) all return
  \<open>SUCCESS\<close> and store \<open>v1..vn\<close> in that order. (\<open>receive_all_in_order\<close> is the
  same for a buffer that already holds values: those come out first.)
\<close>

theorem fifo_delivery:
  assumes "chans w c = Some ch" and "items (buffer ch) = []"
    and "send_all c vbs w = Returns (sts, w1)" and "\<forall>st\<in>set sts. st = SUCCESS"
    and "length ds = length vbs" and "\<forall>(d, b)\<in>set ds. d \<noteq> NULL"
  shows "\<exists>w2. receive_all c ds w1 = Returns (map (\<lambda>(v, b). (SUCCESS, Some v)) vbs, w2)"
proof (cases vbs)
  case Nil
  with assms(5) show ?thesis by simp
next
  case (Cons vb vbs')
  from send_all_appends [OF assms(3,4,1)] assms(2) Cons obtain ch1 where
    ch1: "chans w1 c = Some ch1" "items (buffer ch1) = map fst vbs @ []"
      "is_open ch1" "\<not> mutex ch1" by auto
  from assms(5) have len: "length ds = length (map fst vbs)" by simp
  from receive_all_in_order [OF ch1(1,3,4,2) len assms(6)] obtain w2 where
    "receive_all c ds w1 = Returns (map (\<lambda>x. (SUCCESS, Some x)) (map fst vbs), w2)" by blast
  moreover have "map (\<lambda>x. (SUCCESS, Some x)) (map fst vbs) = map (\<lambda>(v, b). (SUCCESS, Some v)) vbs"
    by (induction vbs) auto
  ultimately show ?thesis by auto
qed

theorem fifo_delivery_witness:
  "chans (one_channel 2 [] True) 0 = Some (idle_chan 2 [] True)
   \<and> items (buffer (idle_chan 2 [] True)) = []
   \<and> send_all 0 [(Obj 1, True), (Obj 2, False)] (one_channel 2 [] True)
     = Returns ([SUCCESS, SUCCESS], one_channel 2 [Obj 1, Obj 2] True)
   \<and> (\<exists>w2. receive_all 0 [(Obj 8, True), (Obj 9, False)] (one_channel 2 [Obj 1, Obj 2] True)
          = Returns ([(SUCCESS, Some (Obj 1)), (SUCCESS, Some (Obj 2))], w2))"
proof -
  let ?ch = "idle_chan 2 [] True"
  have h1: "chans (one_channel 2 [] True) 0 = Some ?ch" by (simp add: one_channel_def)
  have h2: "items (buffer ?ch) = []" by (simp add: idle_chan_def)
  have h3: "send_all 0 [(Obj 1, True), (Obj 2, False)] (one_channel 2 [] True)
              = Returns ([SUCCESS, SUCCESS], one_channel 2 [Obj 1, Obj 2] True)"
    by (simp add: eval_defs)
  have h4: "\<forall>st\<in>set [SUCCESS, SUCCESS]. st = SUCCESS" by simp
  have h5: "length [(Obj 8, True), (Obj 9, False)] = length [(Obj 1, True), (Obj 2, False)]"
    by simp
  have h6: "\<forall>(d, b)\<in>set [(Obj 8, True), (Obj 9, False)]. d \<noteq> NULL" by simp
  from h1 h2 h3 fifo_delivery [OF h1 h2 h3 h4 h5 h6] show ?thesis by simp
qed

section \<open>Non-blocking send on a full buffer\<close>

text \<open>
  C6. A non-blocking \<open>channel_send\<close> on an open channel whose buffer is full (the
  current size equals the capacity) returns \<open>WOULDBLOCK\<close> and leaves the whole shared
  memory as it was: the buffer, the \<open>open\<close> flag, the registered semaphore and its
  counter. The call has to get the channel's mutex.
\<close>

theorem nonblocking_send_full:
  assumes "chans w c = Some ch" and "is_open ch" and "\<not> mutex ch"
    and "buffer_current_size (buffer ch) = buffer_capacity (buffer ch)"
  shows "channel_send c d False sched w = Returns (WOULDBLOCK, w)"
  using assms
  by (simp add: channel_send_def lock_free relock_unchanged)

theorem nonblocking_send_full_witness:
  "chans (one_channel 2 [Obj 1, Obj 2] True) 0 = Some (idle_chan 2 [Obj 1, Obj 2] True)
   \<and> is_open (idle_chan 2 [Obj 1, Obj 2] True)
   \<and> \<not> mutex (idle_chan 2 [Obj 1, Obj 2] True)
   \<and> buffer_current_size (buffer (idle_chan 2 [Obj 1, Obj 2] True))
       = buffer_capacity (buffer (idle_chan 2 [Obj 1, Obj 2] True))
   \<and> channel_send 0 (Obj 3) False [] (one_channel 2 [Obj 1, Obj 2] True)
     = Returns (WOULDBLOCK, one_channel 2 [Obj 1, Obj 2] True)"
proof -
  let ?ch = "idle_chan 2 [Obj 1, Obj 2] True"
  have h1: "chans (one_channel 2 [Obj 1, Obj 2] True) 0 = Some ?ch"
    by (simp add: one_channel_def)
  have h2: "is_open ?ch" and h3: "\<not> mutex ?ch" by (simp_all add: idle_chan_def)
  have h4: "buffer_current_size (buffer ?ch) = buffer_capacity (buffer ?ch)"
    by (simp add: buffer_current_size_def buffer_capacity_def idle_chan_def)
  from h1 h2 h3 h4 nonblocking_send_full [OF h1 h2 h3 h4, of "Obj 3" "[]"]
  show ?thesis by simp
qed

section \<open>channel_close\<close>

text \<open>
  C7. \<open>channel_close\<close> on an open channel returns \<open>SUCCESS\<close>, clears the \<open>open\<close>
  flag and, if a semaphore is registered, posts it once (its counter goes up by one);
  nothing else changes. On a channel that is already closed it returns \<open>CLOSED_ERROR\<close>
  and changes nothing. The call has to get the channel's mutex.
\<close>

theorem channel_close_once:
  assumes "chans w c = Some ch" and "\<not> mutex ch"
  shows "channel_close c w =
     (if is_open ch then
        Returns (SUCCESS,
          w\<lparr>chans := (chans w)(c \<mapsto> ch\<lparr>is_open := False\<rparr>),
            sems := (case semaphore ch of
                       None \<Rightarrow> sems w
                     | Some s \<Rightarrow> (sems w)(s := Suc (sems w s)))\<rparr>)
      else Returns (CLOSED_ERROR, w))"
proof -
  have e1: "ch\<lparr>mutex := False\<rparr> = ch" using assms(2) by (cases ch) simp
  have e2: "ch\<lparr>is_open := False, mutex := False\<rparr> = ch\<lparr>is_open := False\<rparr>"
    using assms(2) by (cases ch) simp
  have e3: "(chans w)(c \<mapsto> ch) = chans w" using assms(1) by (rule map_upd_triv)
  show ?thesis
    using assms
    by (simp add: channel_close_def lock_free post_if_registered_def sem_post_def
        pthread_mutex_unlock_def e1 e2 e3 split: option.splits)
qed

theorem channel_close_once_witness:
  "chans \<lparr>chans = [0 \<mapsto> (idle_chan 1 [Obj 1] True)\<lparr>semaphore := Some 5\<rparr>], sems = (\<lambda>_. 0)\<rparr> 0
     = Some ((idle_chan 1 [Obj 1] True)\<lparr>semaphore := Some 5\<rparr>)
   \<and> \<not> mutex ((idle_chan 1 [Obj 1] True)\<lparr>semaphore := Some 5\<rparr>)
   \<and> channel_close 0
       \<lparr>chans = [0 \<mapsto> (idle_chan 1 [Obj 1] True)\<lparr>semaphore := Some 5\<rparr>], sems = (\<lambda>_. 0)\<rparr>
     = Returns (SUCCESS,
         \<lparr>chans = [0 \<mapsto> (idle_chan 1 [Obj 1] False)\<lparr>semaphore := Some 5\<rparr>],
          sems = (\<lambda>_. 0)(5 := 1)\<rparr>)
   \<and> chans (one_channel 1 [Obj 1] False) 0 = Some (idle_chan 1 [Obj 1] False)
   \<and> \<not> mutex (idle_chan 1 [Obj 1] False)
   \<and> channel_close 0 (one_channel 1 [Obj 1] False)
     = Returns (CLOSED_ERROR, one_channel 1 [Obj 1] False)"
proof -
  let ?ch = "(idle_chan 1 [Obj 1] True)\<lparr>semaphore := Some 5\<rparr>"
  let ?w = "\<lparr>chans = [0 \<mapsto> ?ch], sems = (\<lambda>_. 0)\<rparr>"
  let ?cl = "idle_chan 1 [Obj 1] False"
  have h1: "chans ?w 0 = Some ?ch" and h2: "\<not> mutex ?ch"
    by (simp_all add: idle_chan_def)
  have k1: "chans (one_channel 1 [Obj 1] False) 0 = Some ?cl" and k2: "\<not> mutex ?cl"
    by (simp_all add: one_channel_def idle_chan_def)
  from h1 h2 k1 k2 channel_close_once [OF h1 h2] channel_close_once [OF k1 k2]
  show ?thesis by (simp add: idle_chan_def)
qed

section \<open>Which descriptor select takes\<close>

text \<open>
  C8. The claim: when one or more descriptors are ready, \<open>channel_select\<close> sets
  \<open>selected_index\<close> to the smallest index of a ready descriptor and performs that
  descriptor's operation.

  The code at a concrete input: an empty open channel of capacity 1 and the list
  (receive on it, send \<open>Obj 3\<close> on it). Entry 0 is not ready, entry 1 is, so the
  smallest ready index is 1. The scan locks the channel's mutex for entry 0, finds the
  buffer empty, and goes on to entry 1 without unlocking (only the ready branches of
  lines 218 to 230 unlock). For entry 1 it locks the same mutex again, which the call
  itself holds: the call never returns, whatever the other threads do.
\<close>

theorem select_blocks_on_its_own_lock:
  "channel_select a
     [\<lparr>channel = 0, is_send = False, data = NULL\<rparr>,
      \<lparr>channel = 0, is_send = True, data = Obj 3\<rparr>] 5 sched (one_channel 1 [] True)
   = Blocked"
  by (simp add: eval_defs)

text \<open>
  Two ready descriptors on two channels, in either order: the first in list order is
  taken (a send on channel 0 that is empty, a receive on channel 1 that holds
  \<open>Obj 1\<close>).
\<close>

lemma select_first_in_list_order:
  "channel_select a
     [\<lparr>channel = 0, is_send = True, data = Obj 3\<rparr>,
      \<lparr>channel = 1, is_send = False, data = NULL\<rparr>] 5 sched
     (two_channels (idle_chan 1 [] True) (idle_chan 1 [Obj 1] True))
   = Returns (SUCCESS, 0,
       [\<lparr>channel = 0, is_send = True, data = Obj 3\<rparr>,
        \<lparr>channel = 1, is_send = False, data = NULL\<rparr>],
       \<lparr>chans = [0 \<mapsto> (idle_chan 1 [DataField a 0] True)\<lparr>semaphore := Some 5\<rparr>,
                 1 \<mapsto> (idle_chan 1 [Obj 1] True)\<lparr>semaphore := Some 5\<rparr>],
        sems = (\<lambda>_. 0)(5 := 1)\<rparr>)
   \<and> channel_select a
     [\<lparr>channel = 1, is_send = False, data = NULL\<rparr>,
      \<lparr>channel = 0, is_send = True, data = Obj 3\<rparr>] 5 sched
     (two_channels (idle_chan 1 [] True) (idle_chan 1 [Obj 1] True))
   = Returns (SUCCESS, 0,
       [\<lparr>channel = 1, is_send = False, data = Obj 1\<rparr>,
        \<lparr>channel = 0, is_send = True, data = Obj 3\<rparr>],
       \<lparr>chans = [0 \<mapsto> (idle_chan 1 [] True)\<lparr>semaphore := Some 5\<rparr>,
                 1 \<mapsto> (idle_chan 1 [] True)\<lparr>semaphore := Some 5\<rparr>],
        sems = (\<lambda>_. 0)(5 := 1)\<rparr>)"
  by (simp add: eval_defs fun_upd_twist)

text \<open>
  With the entry that is not ready on another channel than the ready one, the call
  returns with the index of the ready entry, and the mutex of the channel it skipped
  stays locked.
\<close>

lemma select_leaves_skipped_entry_locked:
  "channel_select a
     [\<lparr>channel = 0, is_send = False, data = NULL\<rparr>,
      \<lparr>channel = 1, is_send = False, data = NULL\<rparr>] 5 sched
     (two_channels (idle_chan 1 [] True) (idle_chan 1 [Obj 1] True))
   = Returns (SUCCESS, 1,
       [\<lparr>channel = 0, is_send = False, data = NULL\<rparr>,
        \<lparr>channel = 1, is_send = False, data = Obj 1\<rparr>],
       \<lparr>chans = [0 \<mapsto> (idle_chan 1 [] True)\<lparr>semaphore := Some 5, mutex := True\<rparr>,
                 1 \<mapsto> (idle_chan 1 [] True)\<lparr>semaphore := Some 5\<rparr>],
        sems = (\<lambda>_. 0)(5 := 1)\<rparr>)"
  by (simp add: eval_defs fun_upd_twist)

section \<open>Receive never reports OTHER_ERROR\<close>

lemma receive_wait_status:
  "receive_wait c sched ch w = Returns (Inl st, w') \<Longrightarrow> st = CLOSED_ERROR"
proof (induction c sched ch w rule: receive_wait.induct)
  case (1 c sched ch w)
  from "1.prems" show ?case
    by (subst (asm) receive_wait.simps)
       (auto split: if_splits list.splits outcome.splits prod.splits dest: "1.IH")
qed

text \<open>
  C9. A \<open>channel_receive\<close> whose output pointer is not null never returns
  \<open>OTHER_ERROR\<close>, whatever function \<open>rm\<close> stands for \<open>buffer_remove\<close> and whatever
  it returns: the test after the removal looks at the output pointer itself.
\<close>

theorem receive_never_other_error:
  assumes "d \<noteq> NULL"
  shows "channel_receive_with rm c d blocking sched w \<noteq> Returns (OTHER_ERROR, v, w')"
  using assms
  by (auto simp: channel_receive_with_def receive_remove_def store_through_def
      split: outcome.splits prod.splits if_splits sum.splits option.splits
      dest: receive_wait_status)

theorem receive_never_other_error_witness:
  "Obj 9 \<noteq> NULL
   \<and> channel_receive_with (\<lambda>b. (NULL, b)) 0 (Obj 9) False [] (one_channel 1 [Obj 1] True)
     = Returns (SUCCESS, Some NULL, one_channel 1 [Obj 1] True)
   \<and> channel_receive_with (\<lambda>b. (NULL, b)) 0 (Obj 9) False [] (one_channel 1 [Obj 1] True)
     \<noteq> Returns (OTHER_ERROR, Some NULL, one_channel 1 [Obj 1] True)"
proof -
  have h: "Obj 9 \<noteq> NULL" by simp
  have "channel_receive_with (\<lambda>b. (NULL, b)) 0 (Obj 9) False [] (one_channel 1 [Obj 1] True)
          = Returns (SUCCESS, Some NULL, one_channel 1 [Obj 1] True)"
    by (simp add: eval_defs)
  with h receive_never_other_error [OF h, of "\<lambda>b. (NULL, b)" 0 False "[]"
      "one_channel 1 [Obj 1] True" "Some NULL" "one_channel 1 [Obj 1] True"]
  show ?thesis by simp
qed

section \<open>The open flag is never set again\<close>

lemma open_at_sems [simp]: "open_at (w\<lparr>sems := x\<rparr>) k = open_at w k"
  by (simp add: open_at_def)

lemma open_at_post [simp]: "open_at (post_if_registered ch w) k = open_at w k"
  by (simp add: post_if_registered_def sem_post_def split: option.splits)

lemma lock_keeps_closed:
  assumes "\<not> open_at w k" and "pthread_mutex_lock c w = Returns (ch, w1)"
  shows "\<not> open_at w1 k \<and> (c = k \<longrightarrow> \<not> is_open ch)"
  using assms
  by (auto simp: pthread_mutex_lock_def open_at_def split: option.splits if_splits)

lemma unlock_keeps_closed:
  assumes "\<not> open_at w k" and "c = k \<longrightarrow> \<not> is_open ch"
  shows "\<not> open_at (pthread_mutex_unlock c ch w) k"
  using assms by (auto simp: pthread_mutex_unlock_def open_at_def)

lemma cond_wait_keeps_closed:
  assumes "\<not> open_at w k" and "c = k \<longrightarrow> \<not> is_open ch"
    and "\<forall>v. \<not> open_at v k \<longrightarrow> \<not> open_at (f v) k"
    and "pthread_cond_wait f c ch w = Returns (ch', w')"
  shows "\<not> open_at w' k \<and> (c = k \<longrightarrow> \<not> is_open ch')"
proof -
  have "\<not> open_at (f (pthread_mutex_unlock c ch w)) k"
    using assms(1-3) unlock_keeps_closed by blast
  then show ?thesis
    using assms(4) lock_keeps_closed unfolding pthread_cond_wait_def by blast
qed

lemma send_wait_keeps_closed:
  assumes "\<forall>f\<in>set sched. \<forall>v. \<not> open_at v k \<longrightarrow> \<not> open_at (f v) k"
    and "\<not> open_at w k" and "c = k \<longrightarrow> \<not> is_open ch"
    and "send_wait c sched ch w = Returns (r, w')"
  shows "\<not> open_at w' k \<and> (\<forall>ch'. r = Inr ch' \<longrightarrow> c = k \<longrightarrow> \<not> is_open ch')"
  using assms
proof (induction c sched ch w rule: send_wait.induct)
  case (1 c sched ch w)
  show ?case
  proof (cases "buffer_capacity (buffer ch) = buffer_current_size (buffer ch)")
    case False
    with "1.prems" show ?thesis by (auto simp: send_wait.simps)
  next
    case full: True
    show ?thesis
    proof (cases "is_open ch")
      case False
      with full "1.prems" show ?thesis
        by (auto simp: send_wait.simps unlock_keeps_closed)
    next
      case True
      with full "1.prems"(4) obtain f fs ch1 w1 where
        sched: "sched = f # fs" and
        cw: "pthread_cond_wait f c ch w = Returns (ch1, w1)" and
        rec: "send_wait c fs ch1 w1 = Returns (r, w')"
        by (subst (asm) send_wait.simps) (auto split: list.splits outcome.splits)
      have pf: "\<forall>v. \<not> open_at v k \<longrightarrow> \<not> open_at (f v) k"
        using "1.prems"(1) sched by simp
      have inv: "\<not> open_at w1 k \<and> (c = k \<longrightarrow> \<not> is_open ch1)"
        using cond_wait_keeps_closed [OF "1.prems"(2,3) pf cw] .
      have "\<forall>f\<in>set fs. \<forall>v. \<not> open_at v k \<longrightarrow> \<not> open_at (f v) k"
        using "1.prems"(1) sched by simp
      with "1.IH" [OF full _ sched cw refl] True inv rec show ?thesis by blast
    qed
  qed
qed


lemma receive_wait_keeps_closed:
  assumes "\<forall>f\<in>set sched. \<forall>v. \<not> open_at v k \<longrightarrow> \<not> open_at (f v) k"
    and "\<not> open_at w k" and "c = k \<longrightarrow> \<not> is_open ch"
    and "receive_wait c sched ch w = Returns (r, w')"
  shows "\<not> open_at w' k \<and> (\<forall>ch'. r = Inr ch' \<longrightarrow> c = k \<longrightarrow> \<not> is_open ch')"
  using assms
proof (induction c sched ch w rule: receive_wait.induct)
  case (1 c sched ch w)
  show ?case
  proof (cases "buffer_current_size (buffer ch) = 0")
    case False
    with "1.prems" show ?thesis by (auto simp: receive_wait.simps)
  next
    case empty: True
    show ?thesis
    proof (cases "is_open ch")
      case False
      with empty "1.prems" show ?thesis
        by (auto simp: receive_wait.simps unlock_keeps_closed)
    next
      case True
      with empty "1.prems"(4) obtain f fs ch1 w1 where
        sched: "sched = f # fs" and
        cw: "pthread_cond_wait f c ch w = Returns (ch1, w1)" and
        rec: "receive_wait c fs ch1 w1 = Returns (r, w')"
        by (subst (asm) receive_wait.simps) (auto split: list.splits outcome.splits)
      have pf: "\<forall>v. \<not> open_at v k \<longrightarrow> \<not> open_at (f v) k"
        using "1.prems"(1) sched by simp
      have inv: "\<not> open_at w1 k \<and> (c = k \<longrightarrow> \<not> is_open ch1)"
        using cond_wait_keeps_closed [OF "1.prems"(2,3) pf cw] .
      have "\<forall>f\<in>set fs. \<forall>v. \<not> open_at v k \<longrightarrow> \<not> open_at (f v) k"
        using "1.prems"(1) sched by simp
      with "1.IH" [OF empty _ sched cw refl] True inv rec show ?thesis by blast
    qed
  qed
qed

lemma send_insert_keeps_closed:
  assumes "\<not> open_at w k" and "c = k \<longrightarrow> \<not> is_open ch"
    and "send_insert c d ch w = Returns (st, w')"
  shows "\<not> open_at w' k"
  using assms
  by (auto simp: send_insert_def unlock_keeps_closed split: if_splits prod.splits bool.splits)

lemma receive_remove_keeps_closed:
  assumes "\<not> open_at w k" and "c = k \<longrightarrow> \<not> is_open ch"
    and "receive_remove rm c d ch w = Returns (st, v, w')"
  shows "\<not> open_at w' k"
  using assms
  by (auto simp: receive_remove_def unlock_keeps_closed
      split: if_splits prod.splits option.splits)

lemma channel_send_keeps_closed:
  assumes "\<forall>f\<in>set sched. \<forall>v. \<not> open_at v k \<longrightarrow> \<not> open_at (f v) k"
    and "\<not> open_at w k" and "channel_send c d b sched w = Returns (st, w')"
  shows "\<not> open_at w' k"
proof -
  from assms(3) obtain ch w1 where lk: "pthread_mutex_lock c w = Returns (ch, w1)"
    by (auto simp: channel_send_def split: outcome.splits)
  from lock_keeps_closed [OF assms(2) lk]
  have inv: "\<not> open_at w1 k" "c = k \<longrightarrow> \<not> is_open ch" by simp_all
  show ?thesis
  proof (cases "is_open ch")
    case False
    with assms(3) lk inv show ?thesis
      by (auto simp: channel_send_def unlock_keeps_closed)
  next
    case opn: True
    show ?thesis
    proof (cases b)
      case False
      with assms(3) lk inv opn show ?thesis
        by (auto simp: channel_send_def unlock_keeps_closed split: if_splits
            dest: send_insert_keeps_closed)
    next
      case True
      with assms(3) lk opn obtain r w2 where
        sw: "send_wait c sched ch w1 = Returns (r, w2)" and
        fin: "(case r of Inl st' \<Rightarrow> Returns (st', w2) | Inr ch2 \<Rightarrow> send_insert c d ch2 w2)
                = Returns (st, w')"
        by (auto simp: channel_send_def split: outcome.splits sum.splits)
      from send_wait_keeps_closed [OF assms(1) inv sw]
      have inv2: "\<not> open_at w2 k" "\<forall>ch'. r = Inr ch' \<longrightarrow> c = k \<longrightarrow> \<not> is_open ch'"
        by simp_all
      show ?thesis
      proof (cases r)
        case (Inl st')
        with fin inv2 show ?thesis by simp
      next
        case (Inr ch2)
        with fin inv2 show ?thesis by (auto dest: send_insert_keeps_closed)
      qed
    qed
  qed
qed

lemma channel_receive_keeps_closed:
  assumes "\<forall>f\<in>set sched. \<forall>v. \<not> open_at v k \<longrightarrow> \<not> open_at (f v) k"
    and "\<not> open_at w k" and "channel_receive_with rm c d b sched w = Returns (st, x, w')"
  shows "\<not> open_at w' k"
proof -
  from assms(3) obtain ch w1 where lk: "pthread_mutex_lock c w = Returns (ch, w1)"
    by (auto simp: channel_receive_with_def split: outcome.splits)
  from lock_keeps_closed [OF assms(2) lk]
  have inv: "\<not> open_at w1 k" "c = k \<longrightarrow> \<not> is_open ch" by simp_all
  show ?thesis
  proof (cases "is_open ch")
    case False
    with assms(3) lk inv show ?thesis
      by (auto simp: channel_receive_with_def unlock_keeps_closed)
  next
    case opn: True
    show ?thesis
    proof (cases b)
      case False
      with assms(3) lk inv opn show ?thesis
        by (auto simp: channel_receive_with_def unlock_keeps_closed split: if_splits
            dest: receive_remove_keeps_closed)
    next
      case True
      with assms(3) lk opn obtain r w2 where
        sw: "receive_wait c sched ch w1 = Returns (r, w2)" and
        fin: "(case r of Inl st' \<Rightarrow> Returns (st', None, w2)
                | Inr ch2 \<Rightarrow> receive_remove rm c d ch2 w2) = Returns (st, x, w')"
        by (auto simp: channel_receive_with_def split: outcome.splits sum.splits)
      from receive_wait_keeps_closed [OF assms(1) inv sw]
      have inv2: "\<not> open_at w2 k" "\<forall>ch'. r = Inr ch' \<longrightarrow> c = k \<longrightarrow> \<not> is_open ch'"
        by simp_all
      show ?thesis
      proof (cases r)
        case (Inl st')
        with fin inv2 show ?thesis by simp
      next
        case (Inr ch2)
        with fin inv2 show ?thesis by (auto dest: receive_remove_keeps_closed)
      qed
    qed
  qed
qed

lemma channel_close_keeps_closed:
  assumes "\<not> open_at w k" and "channel_close c w = Returns (st, w')"
  shows "\<not> open_at w' k"
proof -
  from assms(2) obtain ch w1 where lk: "pthread_mutex_lock c w = Returns (ch, w1)"
    by (auto simp: channel_close_def split: outcome.splits)
  from lock_keeps_closed [OF assms(1) lk]
  have inv: "\<not> open_at w1 k" "c = k \<longrightarrow> \<not> is_open ch" by simp_all
  with assms(2) lk show ?thesis
    by (auto simp: channel_close_def unlock_keeps_closed split: if_splits)
qed

lemma channel_destroy_keeps_closed:
  assumes "\<not> open_at w k" and "channel_destroy c w = Returns (st, w')"
  shows "\<not> open_at w' k"
  using assms
  by (auto simp: channel_destroy_def open_at_def split: option.splits if_splits)

lemma register_keeps_closed:
  assumes "\<not> open_at w k" and "register_semaphore s es w = Returns w'"
  shows "\<not> open_at w' k"
  using assms
proof (induction es arbitrary: w)
  case Nil
  then show ?case by simp
next
  case (Cons e es)
  from Cons.prems(2) obtain ch w1 where
    lk: "pthread_mutex_lock (channel e) w = Returns (ch, w1)" and
    rec: "register_semaphore s es
            (pthread_mutex_unlock (channel e) (ch\<lparr>semaphore := Some s\<rparr>) w1) = Returns w'"
    by (auto split: outcome.splits)
  from lock_keeps_closed [OF Cons.prems(1) lk]
  have "\<not> open_at (pthread_mutex_unlock (channel e) (ch\<lparr>semaphore := Some s\<rparr>) w1) k"
    by (simp add: unlock_keeps_closed)
  from Cons.IH [OF this rec] show ?case .
qed

lemma scan_keeps_closed:
  assumes "\<forall>f\<in>set sched. \<forall>v. \<not> open_at v k \<longrightarrow> \<not> open_at (f v) k"
    and "\<not> open_at w k" and "scan a sched i es w = Returns r"
  shows "case r of Inl (st, j, e, w') \<Rightarrow> \<not> open_at w' k | Inr w' \<Rightarrow> \<not> open_at w' k"
  using assms(2,3)
proof (induction es arbitrary: i w)
  case Nil
  then show ?case by auto
next
  case (Cons e es)
  from Cons.prems(2) obtain ch w1 where
    lk: "pthread_mutex_lock (channel e) w = Returns (ch, w1)"
    by (auto split: outcome.splits)
  from lock_keeps_closed [OF Cons.prems(1) lk]
  have inv: "\<not> open_at w1 k" "channel e = k \<longrightarrow> \<not> is_open ch" by simp_all
  then have unl: "\<not> open_at (pthread_mutex_unlock (channel e) ch w1) k"
    by (rule unlock_keeps_closed)
  let ?ready = "if is_send e then buffer_capacity (buffer ch) > buffer_current_size (buffer ch)
                else buffer_current_size (buffer ch) \<noteq> 0"
  show ?case
  proof (cases ?ready)
    case False
    with Cons.prems(2) lk have "scan a sched (Suc i) es w1 = Returns r"
      by (auto split: if_splits)
    from Cons.IH [OF inv(1) this] show ?thesis .
  next
    case True
    show ?thesis
    proof (cases "is_send e")
      case True
      with \<open>?ready\<close> Cons.prems(2) lk obtain st w2 where
        "channel_send (channel e) (DataField a i) True sched
           (pthread_mutex_unlock (channel e) ch w1) = Returns (st, w2)"
        and "r = Inl (st, i, e, w2)"
        by (auto split: outcome.splits if_splits)
      with channel_send_keeps_closed [OF assms(1) unl] show ?thesis by auto
    next
      case False
      with \<open>?ready\<close> Cons.prems(2) lk obtain st x w2 where
        "channel_receive (channel e) (DataField a i) True sched
           (pthread_mutex_unlock (channel e) ch w1) = Returns (st, x, w2)"
        and "r = Inl (st, i, (case x of None \<Rightarrow> e | Some v \<Rightarrow> e\<lparr>data := v\<rparr>), w2)"
        by (auto split: outcome.splits if_splits)
      with channel_receive_keeps_closed [OF assms(1) unl] show ?thesis
        by (auto simp: channel_receive_def)
    qed
  qed
qed

lemma sem_wait_keeps_closed:
  assumes "\<forall>f\<in>set sched. \<forall>v. \<not> open_at v k \<longrightarrow> \<not> open_at (f v) k"
    and "\<not> open_at w k" and "sem_wait s sched w = Returns (sched', w')"
  shows "\<not> open_at w' k \<and> set sched' \<subseteq> set sched"
  using assms
proof (induction sched arbitrary: w)
  case Nil
  then show ?case by (auto simp: sem_wait.simps split: if_splits)
next
  case (Cons f fs)
  show ?case
  proof (cases "0 < sems w s")
    case True
    with Cons.prems show ?thesis by (auto simp: sem_wait.simps)
  next
    case False
    with Cons.prems(3) have rec: "sem_wait s fs (f w) = Returns (sched', w')"
      by (simp add: sem_wait.simps)
    have "\<not> open_at (f w) k" using Cons.prems(1,2) by simp
    moreover have "\<forall>f\<in>set fs. \<forall>v. \<not> open_at v k \<longrightarrow> \<not> open_at (f v) k"
      using Cons.prems(1) by simp
    ultimately show ?thesis using Cons.IH rec by fastforce
  qed
qed

lemma select_loop_keeps_closed:
  assumes "\<forall>f\<in>set sched. \<forall>v. \<not> open_at v k \<longrightarrow> \<not> open_at (f v) k"
    and "\<not> open_at w k" and "select_loop a s l sched w = Returns (st, i, e, w')"
  shows "\<not> open_at w' k"
  using assms
proof (induction a s l sched w rule: select_loop.induct)
  case (1 a s l sched w)
  from "1.prems"(3) obtain r where sc: "scan a sched 0 l w = Returns r"
    by (subst (asm) select_loop.simps) (auto split: outcome.splits)
  note inv = scan_keeps_closed [OF "1.prems"(1,2) sc]
  show ?case
  proof (cases r)
    case (Inl x)
    with "1.prems"(3) sc have "x = (st, i, e, w')"
      by (subst (asm) select_loop.simps) simp
    with inv Inl show ?thesis by simp
  next
    case (Inr w1)
    with "1.prems"(3) sc obtain sched' w2 where
      sw: "sem_wait s sched w1 = Returns (sched', w2)" and
      rec: "select_loop a s l sched' w2 = Returns (st, i, e, w')"
      by (subst (asm) select_loop.simps) (auto split: outcome.splits)
    from inv Inr have "\<not> open_at w1 k" by simp
    from sem_wait_keeps_closed [OF "1.prems"(1) this sw]
    have c2: "\<not> open_at w2 k" and sub: "set sched' \<subseteq> set sched" by simp_all
    from sub "1.prems"(1)
    have "\<forall>f\<in>set sched'. \<forall>v. \<not> open_at v k \<longrightarrow> \<not> open_at (f v) k" by blast
    from "1.IH" [OF sc Inr sw refl this c2 rec] show ?thesis .
  qed
qed

lemma channel_select_keeps_closed:
  assumes "\<forall>f\<in>set sched. \<forall>v. \<not> open_at v k \<longrightarrow> \<not> open_at (f v) k"
    and "\<not> open_at w k" and "channel_select a l s sched w = Returns (st, i, l', w')"
  shows "\<not> open_at w' k"
proof -
  from assms(3) obtain w1 e where
    reg: "register_semaphore s l (w\<lparr>sems := (sems w)(s := 0)\<rparr>) = Returns w1" and
    lp: "select_loop a s l sched w1 = Returns (st, i, e, w')"
    by (auto simp: channel_select_def split: if_splits outcome.splits)
  have "\<not> open_at (w\<lparr>sems := (sems w)(s := 0)\<rparr>) k" using assms(2) by simp
  from register_keeps_closed [OF this reg] have "\<not> open_at w1 k" .
  from select_loop_keeps_closed [OF assms(1) this lp] show ?thesis .
qed

text \<open>
  C10. For every operation (send, receive, close, destroy, select), with any arguments,
  and for every address \<open>k\<close>: if there is no open channel at \<open>k\<close> before the call
  (the \<open>open\<close> flag of the channel there is false), there is none when the call returns,
  provided that what the other threads do while the call is parked does not open a
  channel at \<open>k\<close> either. Only \<open>channel_create\<close> sets the flag, on a new object.
\<close>

theorem open_flag_never_set_again:
  assumes "\<not> open_at w k"
    and "\<forall>f\<in>set sched. \<forall>v. \<not> open_at v k \<longrightarrow> \<not> open_at (f v) k"
    and "world_after call sched w = Returns w'"
  shows "\<not> open_at w' k"
proof (cases call)
  case (Send c d b)
  with assms(3) channel_send_keeps_closed [OF assms(2,1)] show ?thesis
    by (auto split: outcome.splits)
next
  case (Receive c d b)
  with assms(3) channel_receive_keeps_closed [OF assms(2,1)] show ?thesis
    by (auto simp: channel_receive_def split: outcome.splits)
next
  case (Close c)
  with assms(3) channel_close_keeps_closed [OF assms(1)] show ?thesis
    by (auto split: outcome.splits)
next
  case (Destroy c)
  with assms(3) channel_destroy_keeps_closed [OF assms(1)] show ?thesis
    by (auto split: outcome.splits)
next
  case (Select a l s)
  with assms(3) channel_select_keeps_closed [OF assms(2,1)] show ?thesis
    by (auto split: outcome.splits)
qed

theorem open_flag_never_set_again_witness:
  "\<not> open_at (two_channels (idle_chan 1 [Obj 7] False) (idle_chan 1 [Obj 1] True)) 0
   \<and> world_after (Send 1 (Obj 2) True) [other_thread [Receive 1 (Obj 9) False]]
       (two_channels (idle_chan 1 [Obj 7] False) (idle_chan 1 [Obj 1] True))
     = Returns (two_channels (idle_chan 1 [Obj 7] False) (idle_chan 1 [Obj 2] True))
   \<and> \<not> open_at (two_channels (idle_chan 1 [Obj 7] False) (idle_chan 1 [Obj 2] True)) 0"
proof -
  let ?w = "two_channels (idle_chan 1 [Obj 7] False) (idle_chan 1 [Obj 1] True)"
  let ?w' = "two_channels (idle_chan 1 [Obj 7] False) (idle_chan 1 [Obj 2] True)"
  have h1: "\<not> open_at ?w 0" by (simp add: open_at_def two_channels_def idle_chan_def)
  have h2: "\<forall>f\<in>set [other_thread [Receive 1 (Obj 9) False]].
              \<forall>v. \<not> open_at v 0 \<longrightarrow> \<not> open_at (f v) 0"
    by (auto simp: channel_receive_def split: outcome.splits
        dest: channel_receive_keeps_closed [where sched = "[]", simplified])
  have h3: "world_after (Send 1 (Obj 2) True) [other_thread [Receive 1 (Obj 9) False]] ?w
              = Returns ?w'"
    by (simp add: eval_defs)
  from h1 h3 open_flag_never_set_again [OF h1 h2 h3] show ?thesis by simp
qed

end
